theory Spec2Isabelle
  imports Main "HOL-Library.Word"
begin

section \<open>The disjoint-set node of connectedComponents.h\<close>

text \<open>
  The class \<open>Set<U>\<close> has the fields \<open>rank_\<close> (unsigned short), \<open>hasLabel_\<close>,
  \<open>label_\<close> (of the label type \<open>U\<close>) and \<open>parent_\<close> (a pointer to another node,
  null for a root).  Names cannot end with an underscore here, so the fields are
  \<open>rank\<close>, \<open>hasLabel\<close>, \<open>label\<close> and \<open>parent\<close>.

  The nodes live in one array (the \<open>components\<close> buffer of the labelling function), so
  the heap is a list of nodes and a pointer to a node is its index; the null pointer is
  \<open>None\<close>.  A pointer outside the array is a dangling pointer: following it has no
  defined behaviour, and the model gives no result (\<open>None\<close>) there, as it does for a
  walk that never ends.
\<close>

record 'u Set =
  rank :: "16 word"
  hasLabel :: bool
  label :: 'u
  parent :: "nat option"

text \<open>\<open>Set()\<close>: rank 0, no parent, label \<open>UNITIALIZED = U(0)\<close>, no label set.\<close>

definition UNITIALIZED :: "'u::zero" where
  "UNITIALIZED = 0"

definition Set_new :: "('u::zero) Set" where
  "Set_new = \<lparr>rank = 0, hasLabel = False, label = UNITIALIZED, parent = None\<rparr>"

text \<open>\<open>std::numeric_limits<RANK_TYPE>::max()\<close> for the 16-bit \<open>unsigned short\<close>.\<close>

definition RANK_MAX :: "16 word" where
  "RANK_MAX = 65535"

text \<open>
  The failures of a call.  \<open>GraphOverflow\<close> is the exception of \<open>unite\<close>
  ("Connected components graph overflow."); \<open>AllocFailure\<close> is the exception of the
  \<open>std::vector\<close> constructor; \<open>LabelRangeOverflow\<close> is the failure that the
  specification names for the label pass.
\<close>

datatype error = GraphOverflow | AllocFailure | LabelRangeOverflow

text \<open>
  \<open>Set::find\<close>: a root returns itself; any other node asks its parent, stores the
  answer in its own \<open>parent_\<close> and returns it.  The recursion follows the parent
  pointers of the heap and need not end (a cycle of parents), hence a partial function:
  \<open>None\<close> is "no result".
\<close>

partial_function (option) find_set :: "'u Set list \<Rightarrow> nat \<Rightarrow> (nat \<times> 'u Set list) option" where
  "find_set f x =
     (if x < length f then
        (case parent (f ! x) of
           None \<Rightarrow> Some (x, f)
         | Some p \<Rightarrow>
             Option.bind (find_set f p)
               (\<lambda>(r, f'). Some (r, f'[x := (f' ! x)\<lparr>parent := Some r\<rparr>])))
      else None)"

declare find_set.simps [code]

text \<open>
  \<open>Set::unite(x, y)\<close>.  The result carries the heap in both outcomes, because the
  exception is thrown after \<open>yRoot->parent_\<close> has been written.
\<close>

definition unite :: "'u Set list \<Rightarrow> nat \<Rightarrow> nat \<Rightarrow> ((error + unit) \<times> 'u Set list) option" where
  "unite f x y =
     Option.bind (find_set f x) (\<lambda>(xRoot, f1).
     Option.bind (find_set f1 y) (\<lambda>(yRoot, f2).
       if rank (f2 ! xRoot) > rank (f2 ! yRoot) then
         Some (Inr (), f2[yRoot := (f2 ! yRoot)\<lparr>parent := Some xRoot\<rparr>])
       else if rank (f2 ! xRoot) < rank (f2 ! yRoot) then
         Some (Inr (), f2[xRoot := (f2 ! xRoot)\<lparr>parent := Some yRoot\<rparr>])
       else if xRoot \<noteq> yRoot then
         (let f3 = f2[yRoot := (f2 ! yRoot)\<lparr>parent := Some xRoot\<rparr>] in
          if rank (f3 ! xRoot) = RANK_MAX then Some (Inl GraphOverflow, f3)
          else Some (Inr (), f3[xRoot := (f3 ! xRoot)\<lparr>rank := rank (f3 ! xRoot) + 1\<rparr>]))
       else Some (Inr (), f2)))"

subsection \<open>Roots, walks and well-formed forests\<close>

text \<open>\<open>root_of f x r\<close>: following parent pointers from \<open>x\<close> ends at the root \<open>r\<close>.\<close>

inductive root_of :: "'u Set list \<Rightarrow> nat \<Rightarrow> nat \<Rightarrow> bool" for f :: "'u Set list" where
  root_self: "x < length f \<Longrightarrow> parent (f ! x) = None \<Longrightarrow> root_of f x x"
| root_step: "x < length f \<Longrightarrow> parent (f ! x) = Some p \<Longrightarrow> root_of f p r \<Longrightarrow> root_of f x r"

text \<open>\<open>on_path f x y\<close>: the walk that starts at \<open>x\<close> visits \<open>y\<close>.\<close>

inductive on_path :: "'u Set list \<Rightarrow> nat \<Rightarrow> nat \<Rightarrow> bool" for f :: "'u Set list" where
  path_here: "on_path f x x"
| path_next: "x < length f \<Longrightarrow> parent (f ! x) = Some p \<Longrightarrow> on_path f p y \<Longrightarrow> on_path f x y"

text \<open>\<open>links f x n\<close>: the walk from \<open>x\<close> to its root follows \<open>n\<close> parent pointers.\<close>

inductive links :: "'u Set list \<Rightarrow> nat \<Rightarrow> nat \<Rightarrow> bool" for f :: "'u Set list" where
  links_root: "x < length f \<Longrightarrow> parent (f ! x) = None \<Longrightarrow> links f x 0"
| links_step: "x < length f \<Longrightarrow> parent (f ! x) = Some p \<Longrightarrow> links f p n \<Longrightarrow> links f x (Suc n)"

text \<open>A forest: every node of the array reaches a root (pointers in range, no cycle).\<close>

definition wf_forest :: "'u Set list \<Rightarrow> bool" where
  "wf_forest f \<longleftrightarrow> (\<forall>x < length f. \<exists>r. root_of f x r)"

text \<open>An executable walk with fuel, to decide \<open>root_of\<close> on concrete forests.\<close>

fun root_fuel :: "nat \<Rightarrow> 'u Set list \<Rightarrow> nat \<Rightarrow> nat option" where
  "root_fuel 0 f x = None"
| "root_fuel (Suc n) f x =
     (if x < length f then
        (case parent (f ! x) of None \<Rightarrow> Some x | Some p \<Rightarrow> root_fuel n f p)
      else None)"

text \<open>
  \<open>compr f g\<close>: \<open>g\<close> is \<open>f\<close> with some nodes repointed to their own root and nothing
  else changed (what path compression may do).
\<close>

definition compr :: "'u Set list \<Rightarrow> 'u Set list \<Rightarrow> bool" where
  "compr f g \<longleftrightarrow>
     length g = length f \<and>
     (\<forall>y < length f. g ! y = f ! y \<or>
        (\<exists>r. root_of f y r \<and> r \<noteq> y \<and> g ! y = (f ! y)\<lparr>parent := Some r\<rparr>))"

text \<open>Sequences of operations on a forest.\<close>

datatype set_op = Find nat | Unite nat nat

fun run_ops :: "'u Set list \<Rightarrow> set_op list \<Rightarrow> 'u Set list option" where
  "run_ops f [] = Some f"
| "run_ops f (Find x # ops) =
     (case find_set f x of None \<Rightarrow> None | Some (r, f') \<Rightarrow> run_ops f' ops)"
| "run_ops f (Unite x y # ops) =
     (case unite f x y of None \<Rightarrow> None | Some (res, f') \<Rightarrow> run_ops f' ops)"

text \<open>
  The forests that \<open>find\<close> and returning \<open>unite\<close> calls build from \<open>n\<close> freshly
  constructed nodes.
\<close>

inductive reachable :: "nat \<Rightarrow> ('u::zero) Set list \<Rightarrow> bool" for n :: nat where
  reach_init: "reachable n (replicate n Set_new)"
| reach_find: "reachable n f \<Longrightarrow> find_set f x = Some (r, f') \<Longrightarrow> reachable n f'"
| reach_unite: "reachable n f \<Longrightarrow> unite f x y = Some (Inr (), f') \<Longrightarrow> reachable n f'"

text \<open>Ranks grow strictly along parent pointers, and parent pointers stay in the array.\<close>

definition rank_inv :: "'u Set list \<Rightarrow> bool" where
  "rank_inv f \<longleftrightarrow>
     (\<forall>x < length f. \<forall>p. parent (f ! x) = Some p \<longrightarrow> p < length f \<and> rank (f ! x) < rank (f ! p))"

text \<open>A node written out, for the example forests: rank, label state, parent.\<close>

abbreviation nd :: "16 word \<Rightarrow> bool \<Rightarrow> nat \<Rightarrow> nat option \<Rightarrow> nat Set" where
  "nd k h l p \<equiv> \<lparr>rank = k, hasLabel = h, label = l, parent = p\<rparr>"

section \<open>The labelling function findConnectedComponents3d\<close>

text \<open>The outcome of a step: no result (\<open>None\<close>), an exception, or a value.\<close>

type_synonym 'a result = "(error + 'a) option"

definition bindR :: "'a result \<Rightarrow> ('a \<Rightarrow> 'b result) \<Rightarrow> 'b result" where
  "bindR m k = (case m of None \<Rightarrow> None | Some (Inl e) \<Rightarrow> Some (Inl e) | Some (Inr v) \<Rightarrow> k v)"

text \<open>A \<open>for\<close> loop over the values of its counter; an exception leaves the loop.\<close>

primrec for_each :: "('i \<Rightarrow> 's \<Rightarrow> 's result) \<Rightarrow> 'i list \<Rightarrow> 's \<Rightarrow> 's result" where
  "for_each body [] s = Some (Inr s)"
| "for_each body (i # is) s = bindR (body i s) (for_each body is)"


text \<open>
  The arguments of a call, but for the output buffer, which the call writes, and one
  fact of its environment: \<open>availableNodes\<close>, the largest number of \<open>Set<U>\<close> nodes for
  which the constructor of the \<open>components_\<close> vector obtains memory.  The voxel
  type \<open>T\<close> is \<open>'t\<close> and the label type \<open>U\<close> is \<open>'u\<close> (in the label pass an unsigned
  integer of \<open>'l\<close> bits).  The buffers are \<open>void*\<close>, addressed in bytes: \<open>inputBuffer a i\<close>
  is the \<open>T\<close> read at byte offset \<open>i\<close>, and the output buffer likewise gives the \<open>U\<close>
  stored at a byte offset.  \<open>sizeofT\<close> and \<open>sizeofU\<close> are \<open>sizeof(T)\<close> and \<open>sizeof(U)\<close>.
\<close>

record ('t, 'u) call =
  width :: int
  height :: int
  depth :: int
  inputBuffer :: "int \<Rightarrow> 't"
  inputLeap :: int
  inputStride :: int
  backgroundColor :: 't
  outputLeap :: int
  outputStride :: int
  backgroundLabel :: 'u
  sizeofT :: int
  sizeofU :: int
  availableNodes :: nat





text \<open>
  \<open>p[u]\<close> for \<open>p = (T*)((unsigned char*)inputBuffer + w*inputLeap + v*inputStride)\<close>,
  and the node \<open>s[u]\<close> for \<open>s = &components[w*width*height + v*width]\<close>.
\<close>

definition voxel :: "('t, 'u) call \<Rightarrow> int \<times> int \<times> int \<Rightarrow> 't" where
  "voxel a c = (case c of (u, v, w) \<Rightarrow>
     inputBuffer a (w * inputLeap a + v * inputStride a + u * sizeofT a))"


definition in_volume :: "('t, 'u) call \<Rightarrow> int \<times> int \<times> int \<Rightarrow> bool" where
  "in_volume a c \<longleftrightarrow> (case c of (u, v, w) \<Rightarrow>
     0 \<le> u \<and> u < width a \<and> 0 \<le> v \<and> v < height a \<and> 0 \<le> w \<and> w < depth a)"

definition foreground :: "('t, 'u) call \<Rightarrow> int \<times> int \<times> int \<Rightarrow> bool" where
  "foreground a c \<longleftrightarrow> voxel a c \<noteq> backgroundColor a"

text \<open>Face connectivity: the arrays \<open>du\<close>, \<open>dv\<close>, \<open>dw\<close> (back, left, up), \<open>N = 3\<close>.\<close>

definition neighbours :: "(int \<times> int \<times> int) list" where
  "neighbours = [(0, 0, - 1), (- 1, 0, 0), (0, - 1, 0)]"

definition shift :: "int \<times> int \<times> int \<Rightarrow> int \<times> int \<times> int \<Rightarrow> int \<times> int \<times> int" where
  "shift c d = (case c of (u, v, w) \<Rightarrow> case d of (du, dv, dw) \<Rightarrow> (u + du, v + dv, w + dw))"











subsection \<open>Voxels, connectivity and invariants\<close>








text \<open>
  The pairs of voxels that the scan unites when it handles the voxel \<open>c\<close> and the
  offsets \<open>ds\<close>, and all such pairs, in both directions, for a list of voxels.
\<close>

definition edges ::
  "('t, 'u) call \<Rightarrow> int \<times> int \<times> int \<Rightarrow> (int \<times> int \<times> int) list \<Rightarrow>
     ((int \<times> int \<times> int) \<times> (int \<times> int \<times> int)) set" where
  "edges a c ds = {(c, shift c d) | d. d \<in> set ds \<and> foreground a c \<and>
     in_volume a (shift c d) \<and> foreground a (shift c d)}"

definition sym_edges ::
  "('t, 'u) call \<Rightarrow> (int \<times> int \<times> int) list \<Rightarrow> ((int \<times> int \<times> int) \<times> (int \<times> int \<times> int)) set" where
  "sym_edges a ys = (\<Union>c \<in> set ys. edges a c neighbours \<union> (edges a c neighbours)\<inverse>)"








text \<open>
  \<open>compressed f x r g\<close>: \<open>g\<close> is \<open>f\<close> after the walk of \<open>find\<close> from \<open>x\<close> to the root \<open>r\<close>:
  every node of the walk but the root has \<open>r\<close> as its parent, and nothing else differs.
\<close>

definition compressed :: "'u Set list \<Rightarrow> nat \<Rightarrow> nat \<Rightarrow> 'u Set list \<Rightarrow> bool" where
  "compressed f x r g \<longleftrightarrow>
     length g = length f \<and>
     (\<forall>i < length f. g ! i =
        (if on_path f x i \<and> i \<noteq> r then (f ! i)\<lparr>parent := Some r\<rparr> else f ! i))"







text \<open>A step returns normally, with a value that has the property.\<close>

definition good :: "'a result \<Rightarrow> ('a \<Rightarrow> bool) \<Rightarrow> bool" where
  "good m P \<longleftrightarrow> (\<exists>v. m = Some (Inr v) \<and> P v)"

text \<open>A step ends, and if it returns, its value has the property.\<close>

definition ok :: "'a result \<Rightarrow> ('a \<Rightarrow> bool) \<Rightarrow> bool" where
  "ok m P \<longleftrightarrow> (\<exists>x. m = Some x \<and> (\<forall>v. x = Inr v \<longrightarrow> P v))"

section \<open>Properties of find and unite\<close>

lemma root_of_bounds:
  "root_of f x r \<Longrightarrow> x < length f \<and> r < length f \<and> parent (f ! r) = None"
  by (induction rule: root_of.induct) auto

lemma root_of_unique: "root_of f x r \<Longrightarrow> root_of f x r' \<Longrightarrow> r' = r"
proof (induction arbitrary: r' rule: root_of.induct)
  case (root_self x)
  from root_self.prems root_self.hyps show ?case
    by (cases rule: root_of.cases) auto
next
  case (root_step x p r)
  from root_step.prems root_step.hyps(1,2) have "root_of f p r'"
    by (cases rule: root_of.cases) auto
  then show ?case by (rule root_step.IH)
qed

lemma root_of_root: "r < length f \<Longrightarrow> parent (f ! r) = None \<Longrightarrow> root_of f x r' \<Longrightarrow> x = r \<Longrightarrow> r' = r"
  using root_of_unique [OF root_self] by blast

lemma root_fuel_sound: "root_fuel n f x = Some r \<Longrightarrow> root_of f x r"
proof (induction n arbitrary: x)
  case 0
  then show ?case by simp
next
  case (Suc n)
  then show ?case
    by (auto split: if_splits option.splits intro: root_of.intros)
qed

lemma wf_forestI:
  "(\<forall>x < length f. root_fuel n f x \<noteq> None) \<Longrightarrow> wf_forest f"
  unfolding wf_forest_def using root_fuel_sound by fastforce

lemma on_path_root: "on_path f x y \<Longrightarrow> root_of f x r \<Longrightarrow> root_of f y r"
proof (induction rule: on_path.induct)
  case (path_here x)
  then show ?case .
next
  case (path_next x p y)
  from path_next.prems path_next.hyps(1,2) have "root_of f p r"
    by (cases rule: root_of.cases) auto
  then show ?case by (rule path_next.IH)
qed

lemma on_path_of_root: "on_path f x y \<Longrightarrow> parent (f ! x) = None \<Longrightarrow> y = x"
  by (cases rule: on_path.cases) auto

lemma on_path_step_iff:
  "x < length f \<Longrightarrow> parent (f ! x) = Some p \<Longrightarrow> on_path f x y \<longleftrightarrow> y = x \<or> on_path f p y"
  by (auto intro: on_path.intros elim: on_path.cases)

lemma root_on_path: "root_of f x r \<Longrightarrow> on_path f x r"
  by (induction rule: root_of.induct) (auto intro: on_path.intros)

lemma find_set_char:
  "root_of f x r \<Longrightarrow>
   \<exists>f'. find_set f x = Some (r, f') \<and> length f' = length f \<and>
     (\<forall>y < length f. f' ! y = (if on_path f x y \<and> y \<noteq> r then (f ! y)\<lparr>parent := Some r\<rparr> else f ! y))"
proof (induction rule: root_of.induct)
  case (root_self x)
  have "find_set f x = Some (x, f)"
    using root_self by (subst find_set.simps) simp
  moreover have "\<forall>y < length f. f ! y = (if on_path f x y \<and> y \<noteq> x then (f ! y)\<lparr>parent := Some x\<rparr> else f ! y)"
    using on_path_of_root [OF _ root_self(2)] by auto
  ultimately show ?case by simp
next
  case (root_step x p r)
  then obtain f1 where f1: "find_set f p = Some (r, f1)" "length f1 = length f"
    and ch: "\<forall>y < length f. f1 ! y = (if on_path f p y \<and> y \<noteq> r then (f ! y)\<lparr>parent := Some r\<rparr> else f ! y)"
    by blast
  let ?f' = "f1[x := (f1 ! x)\<lparr>parent := Some r\<rparr>]"
  have fs: "find_set f x = Some (r, ?f')"
    using root_step.hyps(1,2) f1 by (subst find_set.simps) simp
  have xr: "x \<noteq> r"
    using root_of_bounds [OF root_step.hyps(3)] root_step.hyps(2) by auto
  have "\<forall>y < length f. ?f' ! y = (if on_path f x y \<and> y \<noteq> r then (f ! y)\<lparr>parent := Some r\<rparr> else f ! y)"
  proof (intro allI impI)
    fix y assume y: "y < length f"
    show "?f' ! y = (if on_path f x y \<and> y \<noteq> r then (f ! y)\<lparr>parent := Some r\<rparr> else f ! y)"
    proof (cases "y = x")
      case True
      have "f1 ! x = (f ! x)\<lparr>parent := Some r\<rparr> \<or> f1 ! x = f ! x"
        using ch root_step.hyps(1) by auto
      then have "(f1 ! x)\<lparr>parent := Some r\<rparr> = (f ! x)\<lparr>parent := Some r\<rparr>" by auto
      then show ?thesis using True xr f1(2) root_step.hyps(1) by (simp add: path_here)
    next
      case False
      then show ?thesis
        using ch y on_path_step_iff [OF root_step.hyps(1,2)] by simp
    qed
  qed
  with fs f1(2) show ?case by simp
qed

lemma find_set_compr:
  assumes "root_of f x r"
  shows "\<exists>f'. find_set f x = Some (r, f') \<and> compr f f'"
proof -
  from find_set_char [OF assms] obtain f' where f': "find_set f x = Some (r, f')" "length f' = length f"
    and ch: "\<forall>y < length f. f' ! y = (if on_path f x y \<and> y \<noteq> r then (f ! y)\<lparr>parent := Some r\<rparr> else f ! y)"
    by blast
  have "compr f f'"
    unfolding compr_def
  proof (intro conjI allI impI)
    show "length f' = length f" by (rule f'(2))
  next
    fix y assume y: "y < length f"
    show "f' ! y = f ! y \<or> (\<exists>r. root_of f y r \<and> r \<noteq> y \<and> f' ! y = (f ! y)\<lparr>parent := Some r\<rparr>)"
    proof (cases "on_path f x y \<and> y \<noteq> r")
      case True
      then have "root_of f y r" using on_path_root assms by blast
      then show ?thesis using True ch y by auto
    next
      case False
      then show ?thesis using ch y by auto
    qed
  qed
  with f'(1) show ?thesis by blast
qed

lemma compr_refl: "compr f f"
  by (simp add: compr_def)

lemma compr_root: 
  assumes "compr f g" "r < length f" "parent (f ! r) = None"
  shows "g ! r = f ! r"
proof -
  have "root_of f r r" using assms by (auto intro: root_of.intros)
  then have "\<And>r'. root_of f r r' \<Longrightarrow> r' = r" using root_of_unique by blast
  then show ?thesis using assms unfolding compr_def by blast
qed

lemma compr_root_of:
  assumes c: "compr f g"
  shows "root_of f z r \<Longrightarrow> root_of g z r"
proof (induction rule: root_of.induct)
  case (root_self x)
  then show ?case using compr_root [OF c] c by (auto simp: compr_def intro: root_of.intros)
next
  case (root_step x p r)
  have len: "length g = length f" using c by (simp add: compr_def)
  have rr: "root_of f x r" using root_step.hyps by (auto intro: root_of.intros)
  have rb: "r < length f" "parent (f ! r) = None" using root_of_bounds [OF rr] by auto
  have gr: "root_of g r r" using compr_root [OF c rb] rb len by (auto intro: root_of.intros)
  from c root_step.hyps(1)
  consider "g ! x = f ! x" | r' where "root_of f x r'" "g ! x = (f ! x)\<lparr>parent := Some r'\<rparr>"
    unfolding compr_def by blast
  then show ?case
  proof cases
    case 1
    then show ?thesis using root_step len by (auto intro: root_of.intros)
  next
    case 2
    then have "r' = r" using root_of_unique [OF rr] by blast
    then show ?thesis using 2 gr root_step.hyps(1) len by (auto intro: root_of.intros)
  qed
qed


lemma compr_root_of_iff:
  assumes "compr f g" "wf_forest f"
  shows "root_of g z r \<longleftrightarrow> root_of f z r"
proof
  assume g: "root_of g z r"
  then have "z < length f" using root_of_bounds [OF g] assms(1) by (simp add: compr_def)
  then obtain r0 where r0: "root_of f z r0" using assms(2) by (auto simp: wf_forest_def)
  then have "root_of g z r0" using compr_root_of [OF assms(1)] by blast
  then have "r0 = r" using root_of_unique g by blast
  with r0 show "root_of f z r" by simp
qed (rule compr_root_of [OF assms(1)])

lemma compr_fields:
  "compr f g \<Longrightarrow> y < length f \<Longrightarrow>
     rank (g ! y) = rank (f ! y) \<and> hasLabel (g ! y) = hasLabel (f ! y) \<and> label (g ! y) = label (f ! y)"
  unfolding compr_def by auto


lemma compr_trans:
  assumes fg: "compr f g" and gh: "compr g h" and wf: "wf_forest f"
  shows "compr f h"
  unfolding compr_def
proof (intro conjI allI impI)
  show "length h = length f" using fg gh by (simp add: compr_def)
next
  fix y assume y: "y < length f"
  then have yg: "y < length g" using fg by (simp add: compr_def)
  from gh yg consider "h ! y = g ! y"
    | r where "root_of g y r" "r \<noteq> y" "h ! y = (g ! y)\<lparr>parent := Some r\<rparr>"
    unfolding compr_def by blast
  then show "h ! y = f ! y \<or> (\<exists>r. root_of f y r \<and> r \<noteq> y \<and> h ! y = (f ! y)\<lparr>parent := Some r\<rparr>)"
  proof cases
    case 1
    then show ?thesis using fg y unfolding compr_def by auto
  next
    case 2
    have rf: "root_of f y r" using 2(1) compr_root_of_iff [OF fg wf] by simp
    have "g ! y = f ! y \<or> (\<exists>r0. g ! y = (f ! y)\<lparr>parent := Some r0\<rparr>)"
      using fg y unfolding compr_def by blast
    then have "(g ! y)\<lparr>parent := Some r\<rparr> = (f ! y)\<lparr>parent := Some r\<rparr>" by auto
    then show ?thesis using rf 2 by auto
  qed
qed



lemma link_root_of:
  assumes xr: "xr < length f" "parent (f ! xr) = None"
    and yr: "yr < length f" "parent (f ! yr) = None" and ne: "xr \<noteq> yr"
  shows "root_of f z r \<Longrightarrow> root_of (f[yr := (f ! yr)\<lparr>parent := Some xr\<rparr>]) z (if r = yr then xr else r)"
proof (induction rule: root_of.induct)
  case (root_self x)
  let ?g = "f[yr := (f ! yr)\<lparr>parent := Some xr\<rparr>]"
  have gx: "root_of ?g xr xr" using xr ne by (auto intro: root_of.intros)
  show ?case
  proof (cases "x = yr")
    case True
    have "root_of ?g yr xr"
      by (rule root_step [OF _ _ gx]) (use yr in auto)
    then show ?thesis using True by simp
  next
    case False
    then show ?thesis using root_self by (auto intro: root_of.intros)
  qed
next
  case (root_step x p r)
  let ?g = "f[yr := (f ! yr)\<lparr>parent := Some xr\<rparr>]"
  have "x \<noteq> yr" using root_step.hyps(2) yr(2) by auto
  then have "parent (?g ! x) = Some p" "x < length ?g" using root_step.hyps by auto
  then show ?case using root_step.IH by (blast intro: root_of.root_step)
qed



lemma unite_cases:
  assumes wf: "wf_forest f" and x: "x < length f" and y: "y < length f"
  shows "\<exists>xr yr f2. root_of f x xr \<and> root_of f y yr \<and> compr f f2 \<and>
     unite f x y =
       (if rank (f ! yr) < rank (f ! xr) then
          Some (Inr (), f2[yr := (f2 ! yr)\<lparr>parent := Some xr\<rparr>])
        else if rank (f ! xr) < rank (f ! yr) then
          Some (Inr (), f2[xr := (f2 ! xr)\<lparr>parent := Some yr\<rparr>])
        else if xr \<noteq> yr then
          (if rank (f ! xr) = RANK_MAX then
             Some (Inl GraphOverflow, f2[yr := (f2 ! yr)\<lparr>parent := Some xr\<rparr>])
           else
             Some (Inr (), f2[yr := (f2 ! yr)\<lparr>parent := Some xr\<rparr>,
                              xr := (f2 ! xr)\<lparr>rank := rank (f ! xr) + 1\<rparr>]))
        else Some (Inr (), f2))"
proof -
  from wf x obtain xr where xr: "root_of f x xr" by (auto simp: wf_forest_def)
  from wf y obtain yr where yr: "root_of f y yr" by (auto simp: wf_forest_def)
  from find_set_compr [OF xr] obtain f1 where f1: "find_set f x = Some (xr, f1)" "compr f f1"
    by blast
  have "root_of f1 y yr" using compr_root_of [OF f1(2) yr] .
  from find_set_compr [OF this] obtain f2 where f2: "find_set f1 y = Some (yr, f2)" "compr f1 f2"
    by blast
  have c: "compr f f2" using compr_trans [OF f1(2) f2(2) wf] .
  have xb: "xr < length f" and yb: "yr < length f"
    using root_of_bounds [OF xr] root_of_bounds [OF yr] by auto
  have rk: "rank (f2 ! xr) = rank (f ! xr)" "rank (f2 ! yr) = rank (f ! yr)"
    using compr_fields [OF c xb] compr_fields [OF c yb] by auto
  have len: "length f2 = length f" using c by (simp add: compr_def)
  have "unite f x y =
       (if rank (f ! yr) < rank (f ! xr) then
          Some (Inr (), f2[yr := (f2 ! yr)\<lparr>parent := Some xr\<rparr>])
        else if rank (f ! xr) < rank (f ! yr) then
          Some (Inr (), f2[xr := (f2 ! xr)\<lparr>parent := Some yr\<rparr>])
        else if xr \<noteq> yr then
          (if rank (f ! xr) = RANK_MAX then
             Some (Inl GraphOverflow, f2[yr := (f2 ! yr)\<lparr>parent := Some xr\<rparr>])
           else
             Some (Inr (), f2[yr := (f2 ! yr)\<lparr>parent := Some xr\<rparr>,
                              xr := (f2 ! xr)\<lparr>rank := rank (f ! xr) + 1\<rparr>]))
        else Some (Inr (), f2))"
    unfolding unite_def using f1(1) f2(1) rk len xb yb by (simp add: Let_def)
  with xr yr c show ?thesis by blast
qed

lemma find_set_Some_root_aux: "find_set f x = Some y \<Longrightarrow> root_of f x (fst y)"
proof (rule find_set.raw_induct [where xa = "(f, x)" and y = y
      and P = "\<lambda>f x y. root_of f x (fst y)", simplified])
  fix fs :: "'a Set list \<Rightarrow> nat \<Rightarrow> (nat \<times> 'a Set list) option" and f x y
  assume IH: "\<And>g z w. fs g z = Some w \<Longrightarrow> root_of g z (fst w)"
    and eq: "(if x < length f
      then case parent (f ! x) of None \<Rightarrow> Some (x, f)
           | Some p \<Rightarrow> Option.bind (fs f p)
                (\<lambda>(r, f'). Some (r, f'[x := (f' ! x)\<lparr>parent := Some r\<rparr>]))
      else None) = Some y"
  show "root_of f x (fst y)"
  proof (cases "parent (f ! x)")
    case None
    then show ?thesis using eq by (auto split: if_splits intro: root_of.intros)
  next
    case (Some p)
    then obtain w where "fs f p = Some w" "x < length f" "fst y = fst w"
      using eq by (auto split: if_splits simp: bind_eq_Some_conv)
    then show ?thesis using IH [of f p w] Some root_step [of x f p "fst w"] by simp
  qed
qed

lemma find_set_Some_root: "find_set f x = Some (r, f') \<Longrightarrow> root_of f x r"
  using find_set_Some_root_aux by fastforce

lemma find_set_Some_compr:
  assumes "find_set f x = Some (r, f')"
  shows "root_of f x r \<and> compr f f'"
  using find_set_compr [OF find_set_Some_root [OF assms]] assms find_set_Some_root [OF assms]
  by auto

lemma on_path_bound: "on_path f x y \<Longrightarrow> x < length f \<Longrightarrow> root_of f x r \<Longrightarrow> y < length f"
  using on_path_root root_of_bounds by blast

text \<open>
  C3.  In a forest, \<open>find\<close> on a node returns: its result is the root of the node's tree
  (the one ancestor without parent); every node has the same root afterwards as before, so
  the components are the same; every node visited on the walk, the root apart, has the
  returned root as its parent afterwards; and a second \<open>find\<close> on a visited node gives the
  same root after following at most one parent pointer.
\<close>

theorem find_set_root_and_compression:
  assumes "wf_forest f" and "x < length f"
  shows "\<exists>r f'. find_set f x = Some (r, f') \<and> root_of f x r \<and> parent (f ! r) = None \<and>
     (\<forall>r'. root_of f x r' \<longrightarrow> r' = r) \<and> length f' = length f \<and>
     (\<forall>z rz. root_of f' z rz \<longleftrightarrow> root_of f z rz) \<and>
     (\<forall>y. on_path f x y \<and> y \<noteq> r \<longrightarrow> parent (f' ! y) = Some r) \<and>
     (\<forall>y. on_path f x y \<longrightarrow>
        (\<exists>f''. find_set f' y = Some (r, f'')) \<and> (\<exists>n. links f' y n \<and> n \<le> 1))"
proof -
  from assms obtain r where r: "root_of f x r" by (auto simp: wf_forest_def)
  from find_set_char [OF r] obtain f' where f': "find_set f x = Some (r, f')"
    and len: "length f' = length f"
    and ch: "\<forall>y < length f. f' ! y = (if on_path f x y \<and> y \<noteq> r then (f ! y)\<lparr>parent := Some r\<rparr> else f ! y)"
    by blast
  have c: "compr f f'" using find_set_Some_compr [OF f'] by simp
  have iff: "\<forall>z rz. root_of f' z rz \<longleftrightarrow> root_of f z rz"
    using compr_root_of_iff [OF c assms(1)] by simp
  have rb: "r < length f" "parent (f ! r) = None" using root_of_bounds [OF r] by auto
  have rr: "parent (f' ! r) = None" using ch rb by simp
  have par: "parent (f' ! y) = Some r" if "on_path f x y" "y \<noteq> r" for y
  proof -
    have "y < length f" using on_path_bound [OF that(1) assms(2) r] .
    then show ?thesis using ch that by simp
  qed
  have again: "(\<exists>f''. find_set f' y = Some (r, f'')) \<and> (\<exists>n. links f' y n \<and> n \<le> 1)"
    if "on_path f x y" for y
  proof -
    have yb: "y < length f" using on_path_bound [OF that assms(2) r] .
    have "root_of f y r" using on_path_root [OF that r] .
    then have "root_of f' y r" using iff by simp
    then have 1: "\<exists>f''. find_set f' y = Some (r, f'')" using find_set_char by blast
    have 2: "\<exists>n. links f' y n \<and> n \<le> 1"
    proof (cases "y = r")
      case True
      then have "links f' y 0" using rr rb len by (auto intro: links.intros)
      then show ?thesis by blast
    next
      case False
      have "links f' r 0" using rr rb len by (auto intro: links.intros)
      then have "links f' y (Suc 0)"
        using par [OF that False] yb len by (auto intro: links.intros)
      then show ?thesis by auto
    qed
    from 1 2 show ?thesis ..
  qed
  have un: "\<forall>r'. root_of f x r' \<longrightarrow> r' = r" using root_of_unique [OF r] by blast
  show ?thesis using f' r rb(2) un len iff par again by blast
qed

theorem find_set_root_and_compression_witness:
  "wf_forest [nd 0 False 0 (Some 1), nd 1 False 0 (Some 2), nd 2 False 0 None] \<and>
   (0::nat) < length [nd 0 False 0 (Some 1), nd 1 False 0 (Some 2), nd 2 False 0 None] \<and>
   find_set [nd 0 False 0 (Some 1), nd 1 False 0 (Some 2), nd 2 False 0 None] 0
     = Some (2, [nd 0 False 0 (Some 2), nd 1 False 0 (Some 2), nd 2 False 0 None]) \<and>
   (\<exists>r f'. find_set [nd 0 False 0 (Some 1), nd 1 False 0 (Some 2), nd 2 False 0 None] 0 = Some (r, f') \<and>
      (\<forall>y. on_path [nd 0 False 0 (Some 1), nd 1 False 0 (Some 2), nd 2 False 0 None] 0 y \<and> y \<noteq> r
          \<longrightarrow> parent (f' ! y) = Some r))"
proof -
  let ?F = "[nd 0 False 0 (Some 1), nd 1 False 0 (Some 2), nd 2 False 0 None]"
  have wf: "wf_forest ?F"
    by (rule wf_forestI [where n = 3]) (simp add: less_Suc_eq numeral_3_eq_3)
  have lt: "(0::nat) < length ?F" by simp
  have ev: "find_set ?F 0 = Some (2, [nd 0 False 0 (Some 2), nd 1 False 0 (Some 2), nd 2 False 0 None])"
    by (simp add: find_set.simps)
  from find_set_root_and_compression [OF wf lt] wf lt ev show ?thesis by blast
qed

lemma find_set_frame:
  assumes "find_set f x = Some (r, f')"
  shows "map hasLabel f' = map hasLabel f \<and> map label f' = map label f \<and> map rank f' = map rank f"
proof -
  have c: "compr f f'" using find_set_Some_compr [OF assms] by simp
  then have len: "length f' = length f" by (simp add: compr_def)
  show ?thesis using compr_fields [OF c] len by (auto intro: nth_equalityI)
qed

lemma update_frame:
  assumes "hasLabel v = hasLabel (f ! i)" "label v = label (f ! i)"
  shows "map hasLabel (f[i := v]) = map hasLabel f \<and> map label (f[i := v]) = map label f"
proof (cases "i < length f")
  case True
  then show ?thesis using assms by (simp add: map_update list_update_same_conv)
next
  case False
  then have "f[i := v] = f" by (simp add: list_update_beyond)
  then show ?thesis by simp
qed

lemma unite_frame:
  assumes "unite f x y = Some (res, f')"
  shows "map hasLabel f' = map hasLabel f \<and> map label f' = map label f"
proof -
  from assms obtain xr f1 yr f2 where 1: "find_set f x = Some (xr, f1)"
    and 2: "find_set f1 y = Some (yr, f2)"
    and 3: "f' = f2[yr := (f2 ! yr)\<lparr>parent := Some xr\<rparr>] \<or> f' = f2[xr := (f2 ! xr)\<lparr>parent := Some yr\<rparr>]
      \<or> f' = f2[yr := (f2 ! yr)\<lparr>parent := Some xr\<rparr>, xr := (f2[yr := (f2 ! yr)\<lparr>parent := Some xr\<rparr>] ! xr)\<lparr>rank := rank (f2[yr := (f2 ! yr)\<lparr>parent := Some xr\<rparr>] ! xr) + 1\<rparr>]
      \<or> f' = f2"
    unfolding unite_def by (auto simp: bind_eq_Some_conv Let_def split: if_splits)
  have "map hasLabel f' = map hasLabel f2 \<and> map label f' = map label f2"
  proof -
    let ?g = "f2[yr := (f2 ! yr)\<lparr>parent := Some xr\<rparr>]"
    have a: "map hasLabel ?g = map hasLabel f2 \<and> map label ?g = map label f2"
      by (rule update_frame) simp_all
    have b: "map hasLabel (f2[xr := (f2 ! xr)\<lparr>parent := Some yr\<rparr>]) = map hasLabel f2
        \<and> map label (f2[xr := (f2 ! xr)\<lparr>parent := Some yr\<rparr>]) = map label f2"
      by (rule update_frame) simp_all
    have c: "map hasLabel (?g[xr := (?g ! xr)\<lparr>rank := rank (?g ! xr) + 1\<rparr>]) = map hasLabel ?g
        \<and> map label (?g[xr := (?g ! xr)\<lparr>rank := rank (?g ! xr) + 1\<rparr>]) = map label ?g"
      by (rule update_frame) simp_all
    from 3 a b c show ?thesis by auto
  qed
  then show ?thesis using find_set_frame [OF 1] find_set_frame [OF 2] by simp
qed

text \<open>
  C8.  Neither \<open>find\<close> nor \<open>unite\<close> (whether it returns or throws) changes the
  \<open>hasLabel_\<close> or \<open>label_\<close> field of any node, and so after any sequence of \<open>find\<close> and
  \<open>unite\<close> operations every node has the label state it started with.
\<close>

theorem find_unite_keep_labels:
  "(find_set f x = Some (r, f1) \<longrightarrow> map hasLabel f1 = map hasLabel f \<and> map label f1 = map label f) \<and>
   (unite f x y = Some (res, f2) \<longrightarrow> map hasLabel f2 = map hasLabel f \<and> map label f2 = map label f) \<and>
   (run_ops f ops = Some f3 \<longrightarrow> map hasLabel f3 = map hasLabel f \<and> map label f3 = map label f)"
proof -
  have "run_ops f ops = Some f3 \<Longrightarrow> map hasLabel f3 = map hasLabel f \<and> map label f3 = map label f"
  proof (induction f ops rule: run_ops.induct)
    case (1 f)
    then show ?case by simp
  next
    case (2 f x ops)
    then show ?case using find_set_frame by (fastforce split: option.splits)
  next
    case (3 f x y ops)
    then show ?case using unite_frame by (fastforce split: option.splits)
  qed
  then show ?thesis using find_set_frame unite_frame by blast
qed

theorem find_unite_keep_labels_witness:
  "find_set [nd 0 True 7 (Some 1), nd 1 False 0 None, nd 1 True 9 None] 0
     = Some (1, [nd 0 True 7 (Some 1), nd 1 False 0 None, nd 1 True 9 None]) \<and>
   unite [nd 0 True 7 (Some 1), nd 1 False 0 None, nd 1 True 9 None] 0 2
     = Some (Inr (), [nd 0 True 7 (Some 1), nd 2 False 0 None, nd 1 True 9 (Some 1)]) \<and>
   run_ops [nd 0 True 7 (Some 1), nd 1 False 0 None, nd 1 True 9 None] [Unite 0 2, Find 2]
     = Some [nd 0 True 7 (Some 1), nd 2 False 0 None, nd 1 True 9 (Some 1)] \<and>
   map hasLabel [nd 0 True 7 (Some 1), nd 2 False 0 None, nd 1 True 9 (Some 1)]
     = map hasLabel [nd 0 True 7 (Some 1), nd 1 False 0 None, nd 1 True 9 None] \<and>
   map label [nd 0 True 7 (Some 1), nd 2 False 0 None, nd 1 True 9 (Some 1)]
     = map label [nd 0 True 7 (Some 1), nd 1 False 0 None, nd 1 True 9 None]"
proof -
  let ?F = "[nd 0 True 7 (Some 1), nd 1 False 0 None, nd 1 True 9 None]"
  let ?G = "[nd 0 True 7 (Some 1), nd 2 False 0 None, nd 1 True 9 (Some 1)]"
  have 1: "find_set ?F 0 = Some (1, ?F)" by (simp add: find_set.simps)
  have 2: "unite ?F 0 2 = Some (Inr (), ?G)" by (simp add: unite_def find_set.simps RANK_MAX_def)
  have 3: "run_ops ?F [Unite 0 2, Find 2] = Some ?G"
    by (simp add: unite_def find_set.simps RANK_MAX_def)
  from find_unite_keep_labels [of ?F 0 1 ?F 2 "Inr ()" ?G "[Unite 0 2, Find 2]" ?G] 1 2 3
  show ?thesis by blast
qed

lemma rank_succ_less: "k \<noteq> RANK_MAX \<Longrightarrow> k < k + 1"
proof -
  have "(65535 :: 16 word) = - 1" by simp
  then show "k \<noteq> RANK_MAX \<Longrightarrow> k < k + 1"
    unfolding RANK_MAX_def using inc_less_eq_iff [of k k] by (simp add: not_le [symmetric])
qed

lemma unite_Some_bounds:
  assumes "unite f x y = Some z"
  shows "x < length f \<and> y < length f"
proof -
  from assms obtain xr f1 yr f2 where 1: "find_set f x = Some (xr, f1)"
    and 2: "find_set f1 y = Some (yr, f2)"
    unfolding unite_def by (auto simp: bind_eq_Some_conv)
  have "root_of f x xr" "compr f f1" using find_set_Some_compr [OF 1] by auto
  moreover have "root_of f1 y yr" using find_set_Some_compr [OF 2] by auto
  ultimately show ?thesis using root_of_bounds by (fastforce simp: compr_def)
qed

lemma find_set_compressed:
  assumes "root_of f x r"
  shows "\<exists>f'. find_set f x = Some (r, f') \<and> compressed f x r f'"
  using find_set_char [OF assms] unfolding compressed_def by blast

lemma compressed_compr:
  assumes "compressed f x r g" "root_of f x r"
  shows "compr f g"
proof -
  from find_set_compressed [OF assms(2)] obtain f' where
    f': "find_set f x = Some (r, f')" "compressed f x r f'" by blast
  have "length g = length f'" using assms(1) f'(2) by (simp add: compressed_def)
  moreover have "\<forall>i < length g. g ! i = f' ! i"
    using assms(1) f'(2) by (simp add: compressed_def)
  ultimately have "g = f'" by (simp add: nth_equalityI)
  then show ?thesis using find_set_Some_compr [OF f'(1)] by simp
qed

text \<open>
  C2, as the code has it.  In a forest, \<open>unite(x, y)\<close> first finds both roots, and each
  \<open>find\<close> compresses its walk: after the first, every node on the walk from \<open>x\<close> but the
  root has the root of \<open>x\<close> as its parent; after the second, so has every node on the walk
  from \<open>y\<close> (in the forest that the first has left) the root of \<open>y\<close>; nothing else
  changes.  Then, on this forest: if the ranks of the roots differ, the parent of the
  root of lower rank becomes the root of higher rank and no rank changes; if the ranks
  are equal, the roots differ and the rank is below the maximum, the root of \<open>y\<close> is
  attached under the root of \<open>x\<close>, whose rank goes up by one; if the ranks are equal,
  the roots differ and the rank is the maximum, the root of \<open>y\<close> is attached under the
  root of \<open>x\<close>, no rank changes and the call throws; if the roots are the same node,
  nothing more is done, and the result is the compressed forest.
\<close>

theorem unite_merges_by_rank:
  assumes "wf_forest f" and "x < length f" and "y < length f"
  shows "\<exists>xr yr f1 f2. root_of f x xr \<and> root_of f y yr \<and>
     compressed f x xr f1 \<and> compressed f1 y yr f2 \<and>
     (rank (f ! yr) < rank (f ! xr) \<longrightarrow>
        unite f x y = Some (Inr (), f2[yr := (f2 ! yr)\<lparr>parent := Some xr\<rparr>])) \<and>
     (rank (f ! xr) < rank (f ! yr) \<longrightarrow>
        unite f x y = Some (Inr (), f2[xr := (f2 ! xr)\<lparr>parent := Some yr\<rparr>])) \<and>
     (rank (f ! xr) = rank (f ! yr) \<and> xr \<noteq> yr \<and> rank (f ! xr) \<noteq> RANK_MAX \<longrightarrow>
        unite f x y = Some (Inr (), f2[yr := (f2 ! yr)\<lparr>parent := Some xr\<rparr>,
                                      xr := (f2 ! xr)\<lparr>rank := rank (f ! xr) + 1\<rparr>])) \<and>
     (rank (f ! xr) = rank (f ! yr) \<and> xr \<noteq> yr \<and> rank (f ! xr) = RANK_MAX \<longrightarrow>
        unite f x y = Some (Inl GraphOverflow, f2[yr := (f2 ! yr)\<lparr>parent := Some xr\<rparr>])) \<and>
     (xr = yr \<longrightarrow> unite f x y = Some (Inr (), f2))"
proof -
  from assms obtain xr where xr: "root_of f x xr" by (auto simp: wf_forest_def)
  from assms obtain yr where yr: "root_of f y yr" by (auto simp: wf_forest_def)
  from find_set_compressed [OF xr] obtain f1 where
    f1: "find_set f x = Some (xr, f1)" "compressed f x xr f1" by blast
  have c1: "compr f f1" using compressed_compr [OF f1(2) xr] .
  have y1: "root_of f1 y yr" using compr_root_of [OF c1 yr] .
  from find_set_compressed [OF y1] obtain f2 where
    f2: "find_set f1 y = Some (yr, f2)" "compressed f1 y yr f2" by blast
  have c2: "compr f1 f2" using compressed_compr [OF f2(2) y1] .
  have c: "compr f f2" using compr_trans [OF c1 c2 assms(1)] .
  have xb: "xr < length f" and yb: "yr < length f"
    using root_of_bounds [OF xr] root_of_bounds [OF yr] by auto
  have rk: "rank (f2 ! xr) = rank (f ! xr)" "rank (f2 ! yr) = rank (f ! yr)"
    using compr_fields [OF c xb] compr_fields [OF c yb] by auto
  have len: "length f2 = length f" using c by (simp add: compr_def)
  have u: "unite f x y =
       (if rank (f ! yr) < rank (f ! xr) then
          Some (Inr (), f2[yr := (f2 ! yr)\<lparr>parent := Some xr\<rparr>])
        else if rank (f ! xr) < rank (f ! yr) then
          Some (Inr (), f2[xr := (f2 ! xr)\<lparr>parent := Some yr\<rparr>])
        else if xr \<noteq> yr then
          (if rank (f ! xr) = RANK_MAX then
             Some (Inl GraphOverflow, f2[yr := (f2 ! yr)\<lparr>parent := Some xr\<rparr>])
           else
             Some (Inr (), f2[yr := (f2 ! yr)\<lparr>parent := Some xr\<rparr>,
                              xr := (f2 ! xr)\<lparr>rank := rank (f ! xr) + 1\<rparr>]))
        else Some (Inr (), f2))"
    unfolding unite_def using f1(1) f2(1) rk len xb yb by (simp add: Let_def)
  have 1: "rank (f ! yr) < rank (f ! xr) \<longrightarrow>
        unite f x y = Some (Inr (), f2[yr := (f2 ! yr)\<lparr>parent := Some xr\<rparr>])"
    using u by simp
  have 2: "rank (f ! xr) < rank (f ! yr) \<longrightarrow>
        unite f x y = Some (Inr (), f2[xr := (f2 ! xr)\<lparr>parent := Some yr\<rparr>])"
    using u by auto
  have 3: "rank (f ! xr) = rank (f ! yr) \<and> xr \<noteq> yr \<and> rank (f ! xr) \<noteq> RANK_MAX \<longrightarrow>
        unite f x y = Some (Inr (), f2[yr := (f2 ! yr)\<lparr>parent := Some xr\<rparr>,
                                      xr := (f2 ! xr)\<lparr>rank := rank (f ! xr) + 1\<rparr>])"
    using u by simp
  have 4: "xr = yr \<longrightarrow> unite f x y = Some (Inr (), f2)"
    using u by simp
  have 5: "rank (f ! xr) = rank (f ! yr) \<and> xr \<noteq> yr \<and> rank (f ! xr) = RANK_MAX \<longrightarrow>
        unite f x y = Some (Inl GraphOverflow, f2[yr := (f2 ! yr)\<lparr>parent := Some xr\<rparr>])"
    using u by simp
  from xr yr f1(2) f2(2) 1 2 3 4 5 show ?thesis by blast
qed

theorem unite_merges_by_rank_witness:
  "wf_forest [nd 0 False 0 (Some 1), nd 1 False 0 (Some 2), nd 2 False 0 None, nd 2 False 0 None] \<and>
   unite [nd 0 False 0 (Some 1), nd 1 False 0 (Some 2), nd 2 False 0 None, nd 2 False 0 None] 0 3
     = Some (Inr (), [nd 0 False 0 (Some 2), nd 1 False 0 (Some 2), nd 3 False 0 None,
                      nd 2 False 0 (Some 2)]) \<and>
   (\<exists>xr yr f1 f2.
      root_of [nd 0 False 0 (Some 1), nd 1 False 0 (Some 2), nd 2 False 0 None, nd 2 False 0 None] 0 xr \<and>
      root_of [nd 0 False 0 (Some 1), nd 1 False 0 (Some 2), nd 2 False 0 None, nd 2 False 0 None] 3 yr \<and>
      compressed [nd 0 False 0 (Some 1), nd 1 False 0 (Some 2), nd 2 False 0 None, nd 2 False 0 None]
        0 xr f1 \<and>
      compressed f1 3 yr f2)"
proof -
  let ?F = "[nd 0 False 0 (Some 1), nd 1 False 0 (Some 2), nd 2 False 0 None, nd 2 False 0 None]"
  have wf: "wf_forest ?F"
    by (rule wf_forestI [where n = 3]) (simp add: less_Suc_eq numeral_3_eq_3)
  have l0: "(0::nat) < length ?F" and l3: "(3::nat) < length ?F" by simp_all
  have ev: "unite ?F 0 3 = Some (Inr (), [nd 0 False 0 (Some 2), nd 1 False 0 (Some 2),
      nd 3 False 0 None, nd 2 False 0 (Some 2)])"
    by (simp add: unite_def find_set.simps RANK_MAX_def)
  from unite_merges_by_rank [OF wf l0 l3] wf ev show ?thesis by blast
qed

text \<open>
  C2 as the specification words it fails twice.  With identical roots the forest is not
  left unchanged: \<open>unite(0, 0)\<close> on the chain 0 -> 1 -> 2 repoints node 0 to the root 2.
  With distinct roots of equal rank 65535 the rank of the surviving root is not
  incremented: the call throws.
\<close>

theorem unite_noop_counterexample:
  "root_of [nd 0 False 0 (Some 1), nd 1 False 0 (Some 2), nd 2 False 0 None] 0 2 \<and>
   unite [nd 0 False 0 (Some 1), nd 1 False 0 (Some 2), nd 2 False 0 None] 0 0
     = Some (Inr (), [nd 0 False 0 (Some 2), nd 1 False 0 (Some 2), nd 2 False 0 None]) \<and>
   [nd 0 False 0 (Some 2), nd 1 False 0 (Some 2), nd 2 False 0 None]
     \<noteq> [nd 0 False 0 (Some 1), nd 1 False 0 (Some 2), nd 2 False 0 None] \<and>
   unite [nd 65535 False 0 None, nd 65535 False 0 None] 0 1
     = Some (Inl GraphOverflow, [nd 65535 False 0 None, nd 65535 False 0 (Some 0)])"
proof -
  have "root_fuel 3 [nd 0 False 0 (Some 1), nd 1 False 0 (Some 2), nd 2 False 0 None] 0 = Some 2"
    by (simp add: numeral_3_eq_3)
  then have "root_of [nd 0 False 0 (Some 1), nd 1 False 0 (Some 2), nd 2 False 0 None] 0 2"
    by (rule root_fuel_sound)
  then show ?thesis by (simp add: unite_def find_set.simps RANK_MAX_def)
qed

text \<open>
  C4.  In a forest, \<open>unite(x, y)\<close> always ends, and it throws the overflow exception
  exactly when the roots of \<open>x\<close> and \<open>y\<close> are distinct and have the same rank, the
  largest value of the rank type; in every other case it returns normally.
\<close>

theorem unite_overflow_iff:
  assumes "wf_forest f" and "x < length f" and "y < length f"
  shows "\<exists>res f'. unite f x y = Some (res, f') \<and>
     (res = Inl GraphOverflow \<longleftrightarrow>
        (\<exists>xr yr. root_of f x xr \<and> root_of f y yr \<and> xr \<noteq> yr \<and>
           rank (f ! xr) = rank (f ! yr) \<and> rank (f ! xr) = RANK_MAX)) \<and>
     (res \<noteq> Inl GraphOverflow \<longrightarrow> res = Inr ())"
proof -
  from unite_cases [OF assms] obtain xr yr f2 where
    h: "root_of f x xr" "root_of f y yr" and
    u: "unite f x y =
       (if rank (f ! yr) < rank (f ! xr) then
          Some (Inr (), f2[yr := (f2 ! yr)\<lparr>parent := Some xr\<rparr>])
        else if rank (f ! xr) < rank (f ! yr) then
          Some (Inr (), f2[xr := (f2 ! xr)\<lparr>parent := Some yr\<rparr>])
        else if xr \<noteq> yr then
          (if rank (f ! xr) = RANK_MAX then
             Some (Inl GraphOverflow, f2[yr := (f2 ! yr)\<lparr>parent := Some xr\<rparr>])
           else
             Some (Inr (), f2[yr := (f2 ! yr)\<lparr>parent := Some xr\<rparr>,
                              xr := (f2 ! xr)\<lparr>rank := rank (f ! xr) + 1\<rparr>]))
        else Some (Inr (), f2))"
    by blast
  have uniq: "(\<exists>xr' yr'. root_of f x xr' \<and> root_of f y yr' \<and> xr' \<noteq> yr' \<and>
           rank (f ! xr') = rank (f ! yr') \<and> rank (f ! xr') = RANK_MAX)
      \<longleftrightarrow> (xr \<noteq> yr \<and> rank (f ! xr) = rank (f ! yr) \<and> rank (f ! xr) = RANK_MAX)"
    using h root_of_unique [OF h(1)] root_of_unique [OF h(2)] by blast
  show ?thesis
  proof (cases "xr \<noteq> yr \<and> rank (f ! xr) = rank (f ! yr) \<and> rank (f ! xr) = RANK_MAX")
    case True
    then have "unite f x y = Some (Inl GraphOverflow, f2[yr := (f2 ! yr)\<lparr>parent := Some xr\<rparr>])"
      using u by auto
    then show ?thesis using uniq True by blast
  next
    case False
    then have "\<exists>f'. unite f x y = Some (Inr (), f')"
      using u by (auto simp: not_less)
    then show ?thesis using uniq False by auto
  qed
qed

theorem unite_overflow_iff_witness:
  "wf_forest [nd 65535 False 0 None, nd 65535 False 0 None, nd 3 False 0 None] \<and>
   (0::nat) < length [nd 65535 False 0 None, nd 65535 False 0 None, nd 3 False 0 None] \<and>
   (1::nat) < length [nd 65535 False 0 None, nd 65535 False 0 None, nd 3 False 0 None] \<and>
   unite [nd 65535 False 0 None, nd 65535 False 0 None, nd 3 False 0 None] 0 1
     = Some (Inl GraphOverflow, [nd 65535 False 0 None, nd 65535 False 0 (Some 0), nd 3 False 0 None]) \<and>
   (\<exists>xr yr. root_of [nd 65535 False 0 None, nd 65535 False 0 None, nd 3 False 0 None] 0 xr \<and>
      root_of [nd 65535 False 0 None, nd 65535 False 0 None, nd 3 False 0 None] 1 yr \<and> xr \<noteq> yr \<and>
      rank ([nd 65535 False 0 None, nd 65535 False 0 None, nd 3 False 0 None] ! xr) = RANK_MAX)"
proof -
  let ?F = "[nd 65535 False 0 None, nd 65535 False 0 None, nd 3 False 0 None]"
  have wf: "wf_forest ?F"
    by (rule wf_forestI [where n = 1]) (simp add: less_Suc_eq)
  have l0: "(0::nat) < length ?F" and l1: "(1::nat) < length ?F" by simp_all
  have ev: "unite ?F 0 1 = Some (Inl GraphOverflow, [nd 65535 False 0 None, nd 65535 False 0 (Some 0), nd 3 False 0 None])"
    by (simp add: unite_def find_set.simps RANK_MAX_def)
  from unite_overflow_iff [OF wf l0 l1] wf l0 l1 ev show ?thesis by auto
qed

text \<open>
  C10.  When \<open>unite(x, y)\<close> throws (distinct roots of equal, maximal rank), the root of
  \<open>y\<close> has already been attached under the root of \<open>x\<close>: the forest at the throw differs
  from the forest before the call, and \<open>x\<close> and \<open>y\<close> have the same root in it.
\<close>

theorem unite_overflow_not_atomic:
  assumes "wf_forest f" and "root_of f x xr" and "root_of f y yr" and "xr \<noteq> yr"
    and "rank (f ! xr) = rank (f ! yr)" and "rank (f ! xr) = RANK_MAX"
  shows "\<exists>f'. unite f x y = Some (Inl GraphOverflow, f') \<and> f' \<noteq> f \<and>
     parent (f' ! yr) = Some xr \<and> root_of f' x xr \<and> root_of f' y xr"
proof -
  have xb: "x < length f" "xr < length f" "parent (f ! xr) = None"
    using root_of_bounds [OF assms(2)] by auto
  have yb: "y < length f" "yr < length f" "parent (f ! yr) = None"
    using root_of_bounds [OF assms(3)] by auto
  from unite_cases [OF assms(1) xb(1) yb(1)] obtain xr' yr' f2 where
    h: "root_of f x xr'" "root_of f y yr'" "compr f f2" and
    u: "unite f x y =
       (if rank (f ! yr') < rank (f ! xr') then
          Some (Inr (), f2[yr' := (f2 ! yr')\<lparr>parent := Some xr'\<rparr>])
        else if rank (f ! xr') < rank (f ! yr') then
          Some (Inr (), f2[xr' := (f2 ! xr')\<lparr>parent := Some yr'\<rparr>])
        else if xr' \<noteq> yr' then
          (if rank (f ! xr') = RANK_MAX then
             Some (Inl GraphOverflow, f2[yr' := (f2 ! yr')\<lparr>parent := Some xr'\<rparr>])
           else
             Some (Inr (), f2[yr' := (f2 ! yr')\<lparr>parent := Some xr'\<rparr>,
                              xr' := (f2 ! xr')\<lparr>rank := rank (f ! xr') + 1\<rparr>]))
        else Some (Inr (), f2))"
    by blast
  have e: "xr' = xr" "yr' = yr"
    using root_of_unique [OF assms(2) h(1)] root_of_unique [OF assms(3) h(2)] by auto
  let ?g = "f2[yr := (f2 ! yr)\<lparr>parent := Some xr\<rparr>]"
  have un: "unite f x y = Some (Inl GraphOverflow, ?g)"
    using u assms(4,5,6) unfolding e by auto
  have len: "length f2 = length f" using h(3) by (simp add: compr_def)
  have par: "parent (?g ! yr) = Some xr" using yb(2) len by simp
  have ne: "?g \<noteq> f" using par yb(3) by auto
  have r2: "parent (f2 ! xr) = None" "parent (f2 ! yr) = None"
    using compr_root [OF h(3) xb(2,3)] compr_root [OF h(3) yb(2,3)] xb(3) yb(3) by auto
  have x2: "root_of f2 x xr" and y2: "root_of f2 y yr"
    using compr_root_of [OF h(3)] assms(2,3) by auto
  have "root_of ?g x (if xr = yr then xr else xr)"
    using link_root_of [OF _ r2(1) _ r2(2) assms(4) x2] xb(2) yb(2) len by simp
  moreover have "root_of ?g y (if yr = yr then xr else yr)"
    using link_root_of [OF _ r2(1) _ r2(2) assms(4) y2] xb(2) yb(2) len by simp
  ultimately show ?thesis using un ne par by auto
qed

theorem unite_overflow_not_atomic_witness:
  "wf_forest [nd 65535 False 0 None, nd 65535 False 0 None, nd 0 False 0 (Some 1)] \<and>
   root_of [nd 65535 False 0 None, nd 65535 False 0 None, nd 0 False 0 (Some 1)] 0 0 \<and>
   root_of [nd 65535 False 0 None, nd 65535 False 0 None, nd 0 False 0 (Some 1)] 2 1 \<and>
   unite [nd 65535 False 0 None, nd 65535 False 0 None, nd 0 False 0 (Some 1)] 0 2
     = Some (Inl GraphOverflow, [nd 65535 False 0 None, nd 65535 False 0 (Some 0), nd 0 False 0 (Some 1)]) \<and>
   (\<exists>f'. unite [nd 65535 False 0 None, nd 65535 False 0 None, nd 0 False 0 (Some 1)] 0 2
       = Some (Inl GraphOverflow, f') \<and>
     f' \<noteq> [nd 65535 False 0 None, nd 65535 False 0 None, nd 0 False 0 (Some 1)] \<and>
     parent (f' ! 1) = Some 0 \<and> root_of f' 0 0 \<and> root_of f' 2 0)"
proof -
  let ?F = "[nd 65535 False 0 None, nd 65535 False 0 None, nd 0 False 0 (Some 1)]"
  have wf: "wf_forest ?F"
    by (rule wf_forestI [where n = 2]) (simp add: less_Suc_eq numeral_2_eq_2)
  have "root_fuel 2 ?F 0 = Some 0" "root_fuel 2 ?F 2 = Some 1"
    by (simp_all add: numeral_2_eq_2)
  then have r: "root_of ?F 0 0" "root_of ?F 2 1"
    by (auto intro: root_fuel_sound)
  have ev: "unite ?F 0 2 = Some (Inl GraphOverflow, [nd 65535 False 0 None, nd 65535 False 0 (Some 0), nd 0 False 0 (Some 1)])"
    by (simp add: unite_def find_set.simps RANK_MAX_def)
  have "(0::nat) \<noteq> 1" "rank (?F ! 0) = rank (?F ! 1)" "rank (?F ! 0) = RANK_MAX"
    by (simp_all add: RANK_MAX_def)
  from unite_overflow_not_atomic [OF wf r this] wf r ev show ?thesis by blast
qed

subsection \<open>Ranks along parent pointers\<close>

lemma rank_inv_root:
  assumes "rank_inv f"
  shows "root_of f x r \<Longrightarrow> rank (f ! x) \<le> rank (f ! r) \<and> (x \<noteq> r \<longrightarrow> rank (f ! x) < rank (f ! r))"
proof (induction rule: root_of.induct)
  case (root_self x)
  then show ?case by simp
next
  case (root_step x p r)
  have "rank (f ! x) < rank (f ! p)"
    using assms root_step.hyps(1,2) by (auto simp: rank_inv_def)
  then show ?case using root_step.IH by auto
qed

lemma rank_inv_wf:
  assumes "rank_inv f"
  shows "wf_forest f"
proof -
  have "\<forall>x < length f. unat RANK_MAX - unat (rank (f ! x)) = k \<longrightarrow> (\<exists>r. root_of f x r)" for k
  proof (induction k rule: less_induct)
    case (less k)
    show ?case
    proof (intro allI impI)
      fix x assume x: "x < length f" and k: "unat RANK_MAX - unat (rank (f ! x)) = k"
      show "\<exists>r. root_of f x r"
      proof (cases "parent (f ! x)")
        case None
        then show ?thesis using x by (auto intro: root_of.intros)
      next
        case (Some p)
        then have p: "p < length f" "rank (f ! x) < rank (f ! p)"
          using assms x by (auto simp: rank_inv_def)
        have "unat (rank (f ! p)) < 2 ^ LENGTH(16)" by (rule unsigned_less)
        then have "unat (rank (f ! p)) \<le> unat RANK_MAX"
          by (simp add: RANK_MAX_def)
        then have "unat RANK_MAX - unat (rank (f ! p)) < k"
          using p(2) k by (simp add: word_less_nat_alt)
        then obtain r where "root_of f p r" using less.IH p(1) by blast
        then show ?thesis using x Some by (auto intro: root_of.intros)
      qed
    qed
  qed
  then show ?thesis by (auto simp: wf_forest_def)
qed

lemma compr_rank_inv:
  assumes c: "compr f g" and inv: "rank_inv f"
  shows "rank_inv g"
  unfolding rank_inv_def
proof (intro allI impI)
  fix y p assume y: "y < length g" and par: "parent (g ! y) = Some p"
  have len: "length g = length f" using c by (simp add: compr_def)
  have yf: "y < length f" using y len by simp
  from c yf consider "g ! y = f ! y"
    | r where "root_of f y r" "r \<noteq> y" "g ! y = (f ! y)\<lparr>parent := Some r\<rparr>"
    unfolding compr_def by blast
  then have "p < length f \<and> rank (f ! y) < rank (f ! p)"
  proof cases
    case 1
    then show ?thesis using inv yf par by (auto simp: rank_inv_def)
  next
    case 2
    then have "p = r" using par by simp
    then show ?thesis using rank_inv_root [OF inv 2(1)] 2(2) root_of_bounds [OF 2(1)] by auto
  qed
  then show "p < length g \<and> rank (g ! y) < rank (g ! p)"
    using compr_fields [OF c] yf len by simp
qed

lemma link_rank_inv:
  assumes inv: "rank_inv f" and xr: "xr < length f" and yr: "yr < length f"
    and lt: "rank (f ! yr) < rank (f ! xr)"
  shows "rank_inv (f[yr := (f ! yr)\<lparr>parent := Some xr\<rparr>])"
  unfolding rank_inv_def
proof (intro allI impI)
  let ?g = "f[yr := (f ! yr)\<lparr>parent := Some xr\<rparr>]"
  fix z p assume z: "z < length ?g" and par: "parent (?g ! z) = Some p"
  have rk: "\<And>i. i < length f \<Longrightarrow> rank (?g ! i) = rank (f ! i)"
    using yr by (simp add: nth_list_update)
  show "p < length ?g \<and> rank (?g ! z) < rank (?g ! p)"
  proof (cases "z = yr")
    case True
    then have "p = xr" using par yr by simp
    then show ?thesis using rk xr yr lt True by simp
  next
    case False
    then have "parent (f ! z) = Some p" using par by simp
    then have "p < length f \<and> rank (f ! z) < rank (f ! p)"
      using inv z by (auto simp: rank_inv_def)
    then show ?thesis using rk z by simp
  qed
qed

lemma link_inc_rank_inv:
  assumes inv: "rank_inv f" and xr: "xr < length f" "parent (f ! xr) = None" and yr: "yr < length f"
    and ne: "xr \<noteq> yr" and eq: "rank (f ! xr) = rank (f ! yr)" and mx: "rank (f ! xr) \<noteq> RANK_MAX"
  shows "rank_inv (f[yr := (f ! yr)\<lparr>parent := Some xr\<rparr>, xr := (f ! xr)\<lparr>rank := rank (f ! xr) + 1\<rparr>])"
  unfolding rank_inv_def
proof (intro allI impI)
  let ?g = "f[yr := (f ! yr)\<lparr>parent := Some xr\<rparr>, xr := (f ! xr)\<lparr>rank := rank (f ! xr) + 1\<rparr>]"
  fix z p assume z: "z < length ?g" and par: "parent (?g ! z) = Some p"
  have up: "rank (f ! xr) < rank (f ! xr) + 1" using rank_succ_less [OF mx] .
  have rk: "rank (f ! i) \<le> rank (?g ! i)" if "i < length f" for i
  proof (cases "i = xr")
    case True
    then show ?thesis using up xr by (simp add: less_imp_le)
  next
    case False
    then show ?thesis using yr by (simp add: nth_list_update)
  qed
  have gx: "?g ! xr = (f ! xr)\<lparr>rank := rank (f ! xr) + 1\<rparr>" using xr by simp
  have gy: "?g ! yr = (f ! yr)\<lparr>parent := Some xr\<rparr>" using yr ne by simp
  have go: "\<And>i. i \<noteq> xr \<Longrightarrow> i \<noteq> yr \<Longrightarrow> ?g ! i = f ! i" by simp
  have zx: "z \<noteq> xr" using par gx xr(2) by auto
  show "p < length ?g \<and> rank (?g ! z) < rank (?g ! p)"
  proof (cases "z = yr")
    case True
    then have "p = xr" using par gy by simp
    then show ?thesis using True gx gy xr up eq by simp
  next
    case False
    then have "parent (f ! z) = Some p" "rank (?g ! z) = rank (f ! z)" using par go zx by simp_all
    moreover from this have "p < length f \<and> rank (f ! z) < rank (f ! p)"
      using inv z by (auto simp: rank_inv_def)
    ultimately show ?thesis using rk [of p] by auto
  qed
qed

lemma rank_inv_init: "rank_inv (replicate n Set_new)"
  by (simp add: rank_inv_def Set_new_def)

lemma reachable_rank_inv: "reachable n f \<Longrightarrow> rank_inv f"
proof (induction rule: reachable.induct)
  case reach_init
  show ?case by (rule rank_inv_init)
next
  case (reach_find f x r f')
  then show ?case using compr_rank_inv find_set_Some_compr by blast
next
  case (reach_unite f x y f')
  have wf: "wf_forest f" using rank_inv_wf [OF reach_unite.IH] .
  have b: "x < length f" "y < length f" using unite_Some_bounds [OF reach_unite.hyps(2)] by auto
  from unite_cases [OF wf b] obtain xr yr f2 where
    h: "root_of f x xr" "root_of f y yr" "compr f f2" and
    u: "unite f x y =
       (if rank (f ! yr) < rank (f ! xr) then
          Some (Inr (), f2[yr := (f2 ! yr)\<lparr>parent := Some xr\<rparr>])
        else if rank (f ! xr) < rank (f ! yr) then
          Some (Inr (), f2[xr := (f2 ! xr)\<lparr>parent := Some yr\<rparr>])
        else if xr \<noteq> yr then
          (if rank (f ! xr) = RANK_MAX then
             Some (Inl GraphOverflow, f2[yr := (f2 ! yr)\<lparr>parent := Some xr\<rparr>])
           else
             Some (Inr (), f2[yr := (f2 ! yr)\<lparr>parent := Some xr\<rparr>,
                              xr := (f2 ! xr)\<lparr>rank := rank (f ! xr) + 1\<rparr>]))
        else Some (Inr (), f2))"
    by blast
  have xb: "xr < length f" "parent (f ! xr) = None" and yb: "yr < length f" "parent (f ! yr) = None"
    using root_of_bounds [OF h(1)] root_of_bounds [OF h(2)] by auto
  have len: "length f2 = length f" using h(3) by (simp add: compr_def)
  have i2: "rank_inv f2" using compr_rank_inv [OF h(3) reach_unite.IH] .
  have rk: "rank (f2 ! xr) = rank (f ! xr)" "rank (f2 ! yr) = rank (f ! yr)"
    using compr_fields [OF h(3)] xb yb by auto
  have p2: "parent (f2 ! xr) = None" using compr_root [OF h(3) xb] xb(2) by simp
  consider (a) "rank (f ! yr) < rank (f ! xr)" | (b) "rank (f ! xr) < rank (f ! yr)"
    | (c) "rank (f ! xr) = rank (f ! yr)" "xr \<noteq> yr" | (d) "xr = yr"
    by (metis linorder_neqE)
  then show ?case
  proof cases
    case a
    then have "f' = f2[yr := (f2 ! yr)\<lparr>parent := Some xr\<rparr>]"
      using u reach_unite.hyps(2) by simp
    then show ?thesis using link_rank_inv [OF i2, of xr yr] a rk xb yb len by simp
  next
    case b
    then have "\<not> rank (f ! yr) < rank (f ! xr)" by (simp add: not_less less_imp_le)
    with b have "f' = f2[xr := (f2 ! xr)\<lparr>parent := Some yr\<rparr>]"
      using u reach_unite.hyps(2) by simp
    then show ?thesis using link_rank_inv [OF i2, of yr xr] b rk xb yb len by simp
  next
    case c
    then have m: "rank (f ! xr) \<noteq> RANK_MAX"
      and f': "f' = f2[yr := (f2 ! yr)\<lparr>parent := Some xr\<rparr>, xr := (f2 ! xr)\<lparr>rank := rank (f ! xr) + 1\<rparr>]"
      using u reach_unite.hyps(2) by (auto split: if_splits)
    show ?thesis
      using link_inc_rank_inv [OF i2, of xr yr] c m rk xb yb len p2 unfolding f' by simp
  next
    case d
    then have "f' = f2" using u reach_unite.hyps(2) by simp
    then show ?thesis using i2 by simp
  qed
qed

text \<open>
  C6.  In every forest that \<open>find\<close> and returning \<open>unite\<close> calls build from freshly
  constructed nodes, the rank of the root of a component is at least the rank of every
  node of the component, its children among them.
\<close>

theorem reachable_root_rank_max:
  assumes "reachable n f" and "root_of f x r"
  shows "rank (f ! x) \<le> rank (f ! r)"
  using rank_inv_root [OF reachable_rank_inv [OF assms(1)] assms(2)] by simp

theorem reachable_root_rank_max_witness:
  "reachable 4 [nd 2 False 0 None, nd 0 False 0 (Some 0), nd 1 False 0 (Some 0), nd 0 False 0 (Some 2)] \<and>
   root_of [nd 2 False 0 None, nd 0 False 0 (Some 0), nd 1 False 0 (Some 0), nd 0 False 0 (Some 2)] 3 0 \<and>
   rank ([nd 2 False 0 None, nd 0 False 0 (Some 0), nd 1 False 0 (Some 0), nd 0 False 0 (Some 2)] ! 3)
     \<le> rank ([nd 2 False 0 None, nd 0 False 0 (Some 0), nd 1 False 0 (Some 0), nd 0 False 0 (Some 2)] ! 0)"
proof -
  let ?F0 = "[nd 0 False 0 None, nd 0 False 0 None, nd 0 False 0 None, nd 0 False 0 None]"
  let ?F1 = "[nd 1 False 0 None, nd 0 False 0 (Some 0), nd 0 False 0 None, nd 0 False 0 None]"
  let ?F2 = "[nd 1 False 0 None, nd 0 False 0 (Some 0), nd 1 False 0 None, nd 0 False 0 (Some 2)]"
  let ?F3 = "[nd 2 False 0 None, nd 0 False 0 (Some 0), nd 1 False 0 (Some 0), nd 0 False 0 (Some 2)]"
  have e0: "replicate 4 Set_new = ?F0"
    by (simp add: Set_new_def UNITIALIZED_def numeral_eq_Suc)
  have u1: "unite ?F0 0 1 = Some (Inr (), ?F1)"
    by (simp add: unite_def find_set.simps RANK_MAX_def)
  have u2: "unite ?F1 2 3 = Some (Inr (), ?F2)"
    by (simp add: unite_def find_set.simps RANK_MAX_def)
  have u3: "unite ?F2 1 3 = Some (Inr (), ?F3)"
    by (simp add: unite_def find_set.simps RANK_MAX_def)
  have "reachable 4 (replicate 4 (Set_new :: nat Set))" by (rule reach_init)
  then have "reachable 4 ?F0" unfolding e0 .
  then have "reachable 4 ?F1" using u1 by (rule reach_unite)
  then have "reachable 4 ?F2" using u2 by (rule reach_unite)
  then have re: "reachable 4 ?F3" using u3 by (rule reach_unite)
  have "root_fuel 3 ?F3 3 = Some 0" by (simp add: numeral_3_eq_3)
  then have ro: "root_of ?F3 3 0" by (rule root_fuel_sound)
  from reachable_root_rank_max [OF re ro] re ro show ?thesis by blast
qed

subsection \<open>Loops\<close>

lemma bindR_simps [simp]:
  "bindR None k = None"
  "bindR (Some (Inl e)) k = Some (Inl e)"
  "bindR (Some (Inr v)) k = k v"
  by (simp_all add: bindR_def)

lemma okI: "m = Some x \<Longrightarrow> (\<And>v. x = Inr v \<Longrightarrow> P v) \<Longrightarrow> ok m P"
  by (auto simp: ok_def)

lemma ok_Inr [simp]: "ok (Some (Inr v)) P \<longleftrightarrow> P v"
  by (simp add: ok_def)

lemma ok_Inl [simp]: "ok (Some (Inl e)) P"
  by (simp add: ok_def)

lemma ok_None [simp]: "\<not> ok None P"
  by (simp add: ok_def)

lemma ok_bindR: "ok m P \<Longrightarrow> (\<And>v. P v \<Longrightarrow> ok (k v) Q) \<Longrightarrow> ok (bindR m k) Q"
  by (auto simp: ok_def bindR_def split: option.splits sum.splits)

lemma ok_mono: "ok m P \<Longrightarrow> (\<And>v. P v \<Longrightarrow> Q v) \<Longrightarrow> ok m Q"
  by (auto simp: ok_def)

lemma ok_Inr_D: "ok m P \<Longrightarrow> m = Some (Inr v) \<Longrightarrow> P v"
  by (simp add: ok_def)






lemma for_each_rule_aux:
  assumes "I ys s"
    and "\<And>ys' x zs s'. ys @ xs = ys' @ x # zs \<Longrightarrow> I ys' s' \<Longrightarrow> ok (body x s') (I (ys' @ [x]))"
  shows "ok (for_each body xs s) (I (ys @ xs))"
  using assms
proof (induction xs arbitrary: ys s)
  case Nil
  then show ?case by simp
next
  case (Cons x xs)
  have 1: "ok (body x s) (I (ys @ [x]))"
    using Cons.prems(2) [of ys x xs s] Cons.prems(1) by simp
  have 2: "ok (for_each body xs s') (I ((ys @ [x]) @ xs))" if "I (ys @ [x]) s'" for s'
    using Cons.IH [of "ys @ [x]" s'] that Cons.prems(2) by simp
  have "ok (bindR (body x s) (for_each body xs)) (I (ys @ x # xs))"
  proof (rule ok_bindR [OF 1])
    fix v assume "I (ys @ [x]) v"
    then show "ok (for_each body xs v) (I (ys @ x # xs))" using 2 by simp
  qed
  then show ?case by simp
qed

lemma for_each_rule:
  assumes "I [] s"
    and "\<And>ys x zs s'. xs = ys @ x # zs \<Longrightarrow> I ys s' \<Longrightarrow> ok (body x s') (I (ys @ [x]))"
  shows "ok (for_each body xs s) (I xs)"
  using for_each_rule_aux [of I "[]" s xs body] assms by simp

subsection \<open>The voxels of a volume\<close>








subsection \<open>Addresses of voxels\<close>






subsection \<open>Counting voxels\<close>



lemma length_upto_nat: "length [0 .. k - 1] = nat k"
  by simp





subsection \<open>The components of a forest\<close>







subsection \<open>The scan\<close>




lemma edges_Nil [simp]: "edges a c [] = {}"
  by (simp add: edges_def)





lemma sym_edges_Nil [simp]: "sym_edges a [] = {}"
  by (simp add: sym_edges_def)








subsection \<open>The resolution pass\<close>



















subsection \<open>Loops over the rows of a volume\<close>








subsection \<open>Steps that return normally\<close>

lemma good_Inr [simp]: "good (Some (Inr v)) P \<longleftrightarrow> P v"
  by (simp add: good_def)

lemma good_Inl [simp]: "\<not> good (Some (Inl e)) P"
  by (simp add: good_def)

lemma good_None [simp]: "\<not> good None P"
  by (simp add: good_def)







subsection \<open>Conservation of the voxel count\<close>





subsection \<open>Arguments that the call does not check\<close>














subsection \<open>Union by rank: a root of rank k has at least 2 ^ k nodes\<close>
















subsection \<open>The scan returns normally\<close>




subsection \<open>The resolution pass returns normally\<close>

















subsection \<open>The labels of the output are the connected components\<close>






end
